theory Spec2Isabelle
  imports Complex_Main "HOL-Library.Signed_Division"
begin

section \<open>Python values and errors\<close>

text \<open>
  The scripts compute on Python's unbounded integers, modelled as \<^typ>\<open>int\<close>. The only
  exceptions the modelled functions can raise come from Python's built-ins: the floor
  division \<^verbatim>\<open>//\<close> raises \<^verbatim>\<open>ZeroDivisionError\<close> on a zero divisor, and
  \<^verbatim>\<open>range\<close> raises \<^verbatim>\<open>ValueError\<close> on a zero step. A raise is the value
  \<open>Inl e\<close>, a normal return the value \<open>Inr v\<close>.
\<close>

datatype py_error = ZeroDivisionError | ValueError

text \<open>
  Python's \<^verbatim>\<open>a // b\<close> on integers rounds towards minus infinity, as \<open>div\<close> on
  \<^typ>\<open>int\<close> does, and raises on \<open>b = 0\<close>.
\<close>

definition py_floordiv :: "int \<Rightarrow> int \<Rightarrow> py_error + int" where
  "py_floordiv a b = (if b = 0 then Inl ZeroDivisionError else Inr (a div b))"

section \<open>The locked amount of a vesting plan\<close>

text \<open>
  A vesting plan is the tuple \<^verbatim>\<open>(amount, claimedAmount, startTime, endTime)\<close> that
  the contract's \<^verbatim>\<open>vestingPlans\<close> getter returns.
\<close>

type_synonym vesting_plan = "int \<times> int \<times> int \<times> int"

text \<open>
  \<^verbatim>\<open>calculate_future_locked_amount\<close> of \<^verbatim>\<open>scripts/future_reset_vesting_plans.py\<close>,
  its return value. The branches stand in the order of the source: the zero amount first,
  then the comparison with the end time, then the one with the start time, and the
  division last.
\<close>

definition calculate_future_locked_amount :: "vesting_plan \<Rightarrow> int \<Rightarrow> py_error + int" where
  "calculate_future_locked_amount vesting_plan future_timestamp =
     (case vesting_plan of (amount, claimed_amount, start_time, end_time) \<Rightarrow>
        if amount = 0 then Inr 0
        else
          (case
             (if future_timestamp \<ge> end_time then Inr amount
              else if future_timestamp \<le> start_time then Inr 0
              else
                (let duration = end_time - start_time;
                     elapsed = future_timestamp - start_time
                 in py_floordiv (amount * elapsed) duration))
           of
             Inl e \<Rightarrow> Inl e
           | Inr unlocked \<Rightarrow> Inr (amount - unlocked)))"


section \<open>The logger\<close>






section \<open>Batches\<close>

text \<open>
  Python's \<^verbatim>\<open>range(start, stop, step)\<close>: it raises \<^verbatim>\<open>ValueError\<close> on a zero
  step, counts up from \<open>start\<close> while below \<open>stop\<close> on a positive step, and counts down
  while above \<open>stop\<close> on a negative one.
\<close>

function range_up :: "int \<Rightarrow> int \<Rightarrow> int \<Rightarrow> int list" where
  "range_up i stop step =
     (if 0 < step \<and> i < stop then i # range_up (i + step) stop step else [])"
  by pat_completeness auto
termination
  by (relation "measure (\<lambda>(i, stop, step). nat (stop - i))") auto

function range_down :: "int \<Rightarrow> int \<Rightarrow> int \<Rightarrow> int list" where
  "range_down i stop step =
     (if step < 0 \<and> stop < i then i # range_down (i + step) stop step else [])"
  by pat_completeness auto
termination
  by (relation "measure (\<lambda>(i, stop, step). nat (i - stop))") auto

declare range_up.simps [simp del] range_down.simps [simp del]

definition py_range :: "int \<Rightarrow> int \<Rightarrow> int \<Rightarrow> py_error + int list" where
  "py_range start stop step =
     (if step = 0 then Inl ValueError
      else if 0 < step then Inr (range_up start stop step)
      else Inr (range_down start stop step))"

text \<open>
  Python's slice \<^verbatim>\<open>xs[a:b]\<close> of a list: a negative index counts from the end, and
  every index is clipped to the list; the slice is empty when the upper index does not
  exceed the lower one.
\<close>

definition slice_index :: "nat \<Rightarrow> int \<Rightarrow> nat" where
  "slice_index n i = (if i < 0 then nat (max (int n + i) 0) else min (nat i) n)"

definition py_slice :: "'a list \<Rightarrow> int \<Rightarrow> int \<Rightarrow> 'a list" where
  "py_slice xs a b =
     (let lo = slice_index (length xs) a; hi = slice_index (length xs) b
      in drop lo (take hi xs))"

text \<open>
  \<^verbatim>\<open>batch_list\<close> of \<^verbatim>\<open>scripts/future_reset_vesting_plans.py\<close> is a generator. The
  model is what iterating it to its end gives, as \<^verbatim>\<open>list(batch_list(...))\<close> in the
  script does: the batches it yields, in order, or the exception of \<^verbatim>\<open>range\<close>, which
  is raised when the iteration starts and not when the generator is made.
\<close>

definition batch_list :: "'a list \<Rightarrow> int \<Rightarrow> py_error + 'a list list" where
  "batch_list input_list batch_size =
     (case py_range 0 (int (length input_list)) batch_size of
        Inl e \<Rightarrow> Inl e
      | Inr indices \<Rightarrow> Inr (map (\<lambda>i. py_slice input_list i (i + batch_size)) indices))"

text \<open>
  The batches of \<^verbatim>\<open>update_vesting_plans\<close> in \<^verbatim>\<open>scripts/reset_vesting_plans.py\<close>:
  the number of batches, the slice \<^verbatim>\<open>batch_data\<close> that the loop takes at the iteration
  \<open>batch_num\<close>, and the slices of all iterations of \<^verbatim>\<open>range(total_batches)\<close> in
  order. The loop sends one transaction per slice and stops at the first transaction that
  fails, so a run takes a prefix of these slices, and all of them when none fails.
\<close>

definition total_batches :: "'a list \<Rightarrow> int \<Rightarrow> py_error + int" where
  "total_batches updated_data batch_size =
     py_floordiv (int (length updated_data) + batch_size - 1) batch_size"

definition batch_data :: "'a list \<Rightarrow> int \<Rightarrow> int \<Rightarrow> 'a list" where
  "batch_data updated_data batch_size batch_num =
     (let start_idx = batch_num * batch_size;
          end_idx = min ((batch_num + 1) * batch_size) (int (length updated_data))
      in py_slice updated_data start_idx end_idx)"

definition update_vesting_plans_batches :: "'a list \<Rightarrow> int \<Rightarrow> py_error + 'a list list" where
  "update_vesting_plans_batches updated_data batch_size =
     (case total_batches updated_data batch_size of
        Inl e \<Rightarrow> Inl e
      | Inr n \<Rightarrow> Inr (map (batch_data updated_data batch_size) (range_up 0 n 1)))"

text \<open>
  The specification's description of the batches, for comparison with the code: the
  contiguous slices of length \<open>n\<close> of a list, in order, the \<open>k\<close>-th slice starting at
  the index \<open>k * n\<close>, as many as the length divided by \<open>n\<close> and rounded up.
\<close>

definition chunks_of :: "nat \<Rightarrow> 'a list \<Rightarrow> 'a list list" where
  "chunks_of n xs = map (\<lambda>k. take n (drop (k * n) xs)) [0..<(length xs + n - 1) div n]"

section \<open>Results about the locked amount\<close>

lemma calculate_future_locked_amount_eq:
  "calculate_future_locked_amount (amount, claimed_amount, start_time, end_time) t =
     Inr (if amount = 0 then 0
          else if end_time \<le> t then 0
          else if t \<le> start_time then amount
          else amount - (amount * (t - start_time)) div (end_time - start_time))"
  by (simp add: calculate_future_locked_amount_def py_floordiv_def Let_def)

lemma floor_div_eq_sdiv:
  fixes a b :: int
  assumes "0 \<le> a" and "0 < b"
  shows "a div b = a sdiv b"
proof -
  have "sgn a * sgn b * (\<bar>a\<bar> div \<bar>b\<bar>) = a div b"
  proof (cases "a = 0")
    case True
    then show ?thesis by simp
  next
    case False
    with assms have "sgn a = 1" and "sgn b = 1" by simp_all
    with assms show ?thesis by simp
  qed
  then show ?thesis by (simp add: signed_divide_int_def)
qed

text \<open>
  Claim C1. For every plan \<open>(totalAmount, claimedAmount, startTime, endTime)\<close> and every
  timestamp the function returns (it raises nothing): 0 when the total amount is 0;
  else 0 when the timestamp is at or after the end time; else the total amount when the
  timestamp is at or before the start time; otherwise the total amount minus the floor of
  \<open>totalAmount * (atTime - startTime) / (endTime - startTime)\<close>. The floor is Python's
  \<^verbatim>\<open>//\<close>; for an unsigned total amount it is the truncating division as well (the
  divisor and the elapsed time are positive in that branch). The plan (1000, 0, 1000, 2000)
  has 500 locked at time 1500.
\<close>

theorem calculate_future_locked_amount_spec:
  "calculate_future_locked_amount (totalAmount, claimedAmount, startTime, endTime) atTime =
     Inr (if totalAmount = 0 then 0
          else if atTime \<ge> endTime then 0
          else if atTime \<le> startTime then totalAmount
          else totalAmount - (totalAmount * (atTime - startTime)) div (endTime - startTime))
   \<and> (0 \<le> totalAmount \<and> startTime < atTime \<and> atTime < endTime \<longrightarrow>
        calculate_future_locked_amount (totalAmount, claimedAmount, startTime, endTime) atTime =
          Inr (totalAmount - (totalAmount * (atTime - startTime)) sdiv (endTime - startTime)))
   \<and> calculate_future_locked_amount (1000, 0, 1000, 2000) 1500 = Inr 500"
proof (intro conjI impI)
  show "calculate_future_locked_amount (totalAmount, claimedAmount, startTime, endTime) atTime =
     Inr (if totalAmount = 0 then 0
          else if atTime \<ge> endTime then 0
          else if atTime \<le> startTime then totalAmount
          else totalAmount - (totalAmount * (atTime - startTime)) div (endTime - startTime))"
    by (rule calculate_future_locked_amount_eq)
next
  assume h: "0 \<le> totalAmount \<and> startTime < atTime \<and> atTime < endTime"
  then have "0 \<le> totalAmount * (atTime - startTime)" and "0 < endTime - startTime"
    by simp_all
  then have "(totalAmount * (atTime - startTime)) div (endTime - startTime) =
      (totalAmount * (atTime - startTime)) sdiv (endTime - startTime)"
    by (rule floor_div_eq_sdiv)
  with h show "calculate_future_locked_amount (totalAmount, claimedAmount, startTime, endTime) atTime =
      Inr (totalAmount - (totalAmount * (atTime - startTime)) sdiv (endTime - startTime))"
    by (simp add: calculate_future_locked_amount_eq)
next
  show "calculate_future_locked_amount (1000, 0, 1000, 2000) 1500 = Inr 500"
    by (simp add: calculate_future_locked_amount_eq)
qed

theorem calculate_future_locked_amount_spec_witness:
  "calculate_future_locked_amount (1000, 0, 1000, 2000) 1250 = Inr 750
   \<and> (1000 * (1250 - 1000)) sdiv (2000 - 1000) = (250 :: int)"
  using calculate_future_locked_amount_spec [of 1000 0 1000 2000 1250]
  by (simp add: signed_divide_int_def)


lemma unlocked_bounds:
  fixes amount elapsed duration :: int
  assumes "0 \<le> amount" and "0 \<le> elapsed" and "elapsed \<le> duration" and "0 < duration"
  shows "0 \<le> (amount * elapsed) div duration" and "(amount * elapsed) div duration \<le> amount"
proof -
  from assms show "0 \<le> (amount * elapsed) div duration"
    by (simp add: pos_imp_zdiv_nonneg_iff)
  from assms have "amount * elapsed \<le> amount * duration"
    by (simp add: mult_left_mono)
  then have "(amount * elapsed) div duration \<le> (amount * duration) div duration"
    using \<open>0 < duration\<close> by (rule zdiv_mono1)
  moreover have "(amount * duration) div duration = amount"
    using \<open>0 < duration\<close> by simp
  ultimately show "(amount * elapsed) div duration \<le> amount"
    by simp
qed

lemma unlocked_mono:
  fixes amount e1 e2 duration :: int
  assumes "0 \<le> amount" and "e1 \<le> e2" and "0 < duration"
  shows "(amount * e1) div duration \<le> (amount * e2) div duration"
proof -
  from assms have "amount * e1 \<le> amount * e2"
    by (simp add: mult_left_mono)
  then show ?thesis
    using \<open>0 < duration\<close> by (rule zdiv_mono1)
qed

text \<open>
  Claim C3, as amended. The function has no check of the time range and raises nothing:
  for a plan whose start and end times are equal one of the two comparisons always
  decides, so it returns 0 when the total amount is 0 or the timestamp is at or after the
  end time, and the total amount before it. No call, on any plan, ends in a division by
  zero.
\<close>

theorem equal_times_return_without_error:
  "startTime = endTime \<Longrightarrow>
     calculate_future_locked_amount (totalAmount, claimedAmount, startTime, endTime) atTime =
       Inr (if totalAmount = 0 \<or> endTime \<le> atTime then 0 else totalAmount)
     \<and> calculate_future_locked_amount plan t \<noteq> Inl ZeroDivisionError"
proof
  assume "startTime = endTime"
  then show "calculate_future_locked_amount (totalAmount, claimedAmount, startTime, endTime) atTime =
       Inr (if totalAmount = 0 \<or> endTime \<le> atTime then 0 else totalAmount)"
    by (simp add: calculate_future_locked_amount_eq)
next
  obtain a c s e where "plan = (a, c, s, e)"
    by (cases plan) auto
  then show "calculate_future_locked_amount plan t \<noteq> Inl ZeroDivisionError"
    by (simp add: calculate_future_locked_amount_eq)
qed

theorem equal_times_return_without_error_witness:
  "calculate_future_locked_amount (1000, 0, 1000, 1000) 999 = Inr 1000
   \<and> calculate_future_locked_amount (1000, 0, 1000, 1000) 2000 \<noteq> Inl ZeroDivisionError"
  using equal_times_return_without_error [of 1000 1000 1000 0 999 "(1000, 0, 1000, 1000)" 2000]
  by simp

theorem equal_times_raise_nothing_counterexample:
  "calculate_future_locked_amount (1000, 0, 1000, 1000) 1500 = Inr 0
   \<and> calculate_future_locked_amount (1000, 0, 1000, 1000) 500 = Inr 1000"
  by (simp add: calculate_future_locked_amount_eq)

text \<open>
  Claim C5. For a fixed plan with an unsigned total amount the locked amount does not
  increase with the timestamp: for \<open>t1 \<le> t2\<close> both calls return, and the locked amount at
  \<open>t1\<close> is at least the one at \<open>t2\<close>. Nothing is assumed about the order of the start and
  end times.
\<close>

theorem locked_amount_non_increasing:
  assumes "0 \<le> totalAmount" and "t1 \<le> t2"
  shows "\<exists>l1 l2.
     calculate_future_locked_amount (totalAmount, claimedAmount, startTime, endTime) t1 = Inr l1
     \<and> calculate_future_locked_amount (totalAmount, claimedAmount, startTime, endTime) t2 = Inr l2
     \<and> l1 \<ge> l2"
proof -
  let ?d = "endTime - startTime"
  let ?u = "\<lambda>t. (totalAmount * (t - startTime)) div ?d"
  have mid: "0 \<le> ?u t \<and> ?u t \<le> totalAmount" if "startTime < t" and "t < endTime" for t
    using unlocked_bounds [of totalAmount "t - startTime" ?d] assms(1) that by simp
  have mono: "?u t1 \<le> ?u t2" if "startTime < endTime"
    using unlocked_mono [of totalAmount "t1 - startTime" "t2 - startTime" ?d] assms that by simp
  consider (zero) "totalAmount = 0"
    | (late1) "totalAmount \<noteq> 0" "endTime \<le> t1"
    | (early1) "totalAmount \<noteq> 0" "t1 < endTime" "t1 \<le> startTime"
    | (mid1) "totalAmount \<noteq> 0" "t1 < endTime" "startTime < t1"
    by linarith
  then show ?thesis
  proof cases
    case zero
    then show ?thesis by (simp add: calculate_future_locked_amount_eq)
  next
    case late1
    with assms show ?thesis by (simp add: calculate_future_locked_amount_eq)
  next
    case early1
    with assms mid [of t2] show ?thesis
      by (simp add: calculate_future_locked_amount_eq)
  next
    case mid1
    with assms mid [of t1] mid [of t2] mono show ?thesis
      by (simp add: calculate_future_locked_amount_eq)
  qed
qed

theorem locked_amount_non_increasing_witness:
  "\<exists>l1 l2. calculate_future_locked_amount (1000, 0, 1000, 2000) 1250 = Inr l1
     \<and> calculate_future_locked_amount (1000, 0, 1000, 2000) 1500 = Inr l2 \<and> l1 \<ge> l2"
  using locked_amount_non_increasing [of 1000 1250 1500 0 1000 2000] by simp

text \<open>
  Claim C6, as amended. For every plan the locked amount at the end time is 0. The locked
  amount at the start time is the total amount exactly when the start time is before the
  end time or the total amount is 0: the comparison with the end time comes first, so a
  plan whose start time is not before its end time has nothing locked at its start time.
\<close>

theorem locked_at_end_and_start:
  "calculate_future_locked_amount (totalAmount, claimedAmount, startTime, endTime) endTime = Inr 0
   \<and> (calculate_future_locked_amount (totalAmount, claimedAmount, startTime, endTime) startTime =
        Inr totalAmount
      \<longleftrightarrow> startTime < endTime \<or> totalAmount = 0)"
  by (auto simp add: calculate_future_locked_amount_eq)

theorem locked_at_end_and_start_witness:
  "calculate_future_locked_amount (1000, 0, 1000, 2000) 2000 = Inr 0
   \<and> calculate_future_locked_amount (1000, 0, 1000, 2000) 1000 = Inr 1000"
  using locked_at_end_and_start [of 1000 0 1000 2000] by simp

theorem locked_at_start_counterexample:
  "calculate_future_locked_amount (1000, 0, 1000, 1000) 1000 \<noteq> Inr 1000"
  by (simp add: calculate_future_locked_amount_eq)

text \<open>
  Claim C7. The result does not depend on the claimed amount: two plans with the same
  total amount, start time and end time give the same result at every timestamp, whatever
  their claimed amounts are.
\<close>

theorem claimed_amount_irrelevant:
  "calculate_future_locked_amount (totalAmount, claimedAmount1, startTime, endTime) atTime =
   calculate_future_locked_amount (totalAmount, claimedAmount2, startTime, endTime) atTime"
  by (simp add: calculate_future_locked_amount_eq)

text \<open>
  Claim C8. For an unsigned total amount and any claimed amount, start time, end time and
  timestamp (the start time need not be before the end time) the function returns a value
  between 0 and the total amount.
\<close>

theorem locked_amount_bounded:
  assumes "0 \<le> totalAmount"
  shows "\<exists>locked.
     calculate_future_locked_amount (totalAmount, claimedAmount, startTime, endTime) atTime =
       Inr locked
     \<and> 0 \<le> locked \<and> locked \<le> totalAmount"
proof (cases "startTime < atTime \<and> atTime < endTime")
  case True
  with assms unlocked_bounds [of totalAmount "atTime - startTime" "endTime - startTime"]
  show ?thesis
    by (simp add: calculate_future_locked_amount_eq)
next
  case False
  with assms show ?thesis
    by (auto simp add: calculate_future_locked_amount_eq)
qed

theorem locked_amount_bounded_witness:
  "\<exists>locked. calculate_future_locked_amount (1000, 0, 2000, 1000) 1500 = Inr locked
     \<and> 0 \<le> locked \<and> locked \<le> 1000"
  using locked_amount_bounded [of 1000 0 2000 1000 1500] by simp



section \<open>Results about the batches\<close>

lemma div_round_up_bounds:
  fixes a b :: int
  assumes "0 < b"
  shows "a \<le> b * ((a + b - 1) div b)" and "b * ((a + b - 1) div b) < a + b"
proof -
  let ?z = "(a + b - 1) div b"
  have eq: "b * ?z + (a + b - 1) mod b = a + b - 1"
    by (rule mult_div_mod_eq)
  have "0 \<le> (a + b - 1) mod b" and "(a + b - 1) mod b < b"
    using assms by simp_all
  with eq show "a \<le> b * ?z" and "b * ?z < a + b"
    by linarith+
qed

lemma upt_0_Suc_map: "[0..<Suc m] = 0 # map Suc [0..<m]"
proof -
  have "[0..<Suc m] = 0 # [Suc 0..<Suc m]"
    by (subst upt_rec) simp
  then show ?thesis
    by (simp only: map_Suc_upt)
qed

lemma range_up_eq:
  assumes "0 < step"
  shows "range_up i stop step =
     map (\<lambda>k. i + int k * step) [0..<nat ((stop - i + step - 1) div step)]"
  using assms
proof (induction i stop step rule: range_up.induct)
  case (1 i stop step)
  show ?case
  proof (cases "i < stop")
    case True
    let ?m = "nat ((stop - (i + step) + step - 1) div step)"
    have ih: "range_up (i + step) stop step = map (\<lambda>k. i + step + int k * step) [0..<?m]"
      using "1.IH" "1.prems" True by simp
    have "stop - i + step - 1 = (stop - i - 1) + step"
      by simp
    then have "(stop - i + step - 1) div step = (stop - i - 1) div step + 1"
      using "1.prems" by (simp only: div_add_self2)
    moreover have "0 \<le> (stop - i - 1) div step"
      using "1.prems" True by (simp add: pos_imp_zdiv_nonneg_iff)
    moreover have "stop - (i + step) + step - 1 = stop - i - 1"
      by simp
    ultimately have m: "nat ((stop - i + step - 1) div step) = Suc ?m"
      by (simp add: nat_add_distrib)
    have "range_up i stop step = i # range_up (i + step) stop step"
      using "1.prems" True by (subst range_up.simps) simp
    also have "\<dots> = i # map (\<lambda>k. i + step + int k * step) [0..<?m]"
      by (simp only: ih)
    also have "\<dots> = map (\<lambda>k. i + int k * step) [0..<Suc ?m]"
      by (simp only: upt_0_Suc_map) (simp add: algebra_simps)
    finally show ?thesis
      by (simp only: m)
  next
    case False
    then have "stop - i + step - 1 \<le> step - 1" by simp
    then have "(stop - i + step - 1) div step \<le> (step - 1) div step"
      using "1.prems" by (rule zdiv_mono1)
    moreover have "(step - 1) div step = 0"
      using "1.prems" by (simp add: div_pos_pos_trivial)
    moreover have "range_up i stop step = []"
      using False by (subst range_up.simps) simp
    ultimately show ?thesis by simp
  qed
qed

lemma py_slice_nat: "py_slice xs (int a) (int b) = drop a (take b xs)"
proof -
  have "slice_index (length xs) (int a) = min a (length xs)"
    and "slice_index (length xs) (int b) = min b (length xs)"
    by (simp_all add: slice_index_def)
  moreover have "drop (min a (length xs)) (take (min b (length xs)) xs) = drop a (take b xs)"
    by (cases "a \<le> length xs"; cases "b \<le> length xs") (simp_all add: min_def)
  ultimately show ?thesis
    by (simp add: py_slice_def)
qed

lemma drop_take_chunk: "drop a (take (a + n) xs) = take n (drop a xs)"
  by (simp add: drop_take)

lemma nat_round_up:
  assumes "0 < n"
  shows "nat ((int len + n - 1) div n) = (len + nat n - 1) div nat n"
proof -
  have "int len + n - 1 = int (len + nat n - 1)"
    using assms by simp
  moreover have "n = int (nat n)"
    using assms by simp
  ultimately have "(int len + n - 1) div n = int ((len + nat n - 1) div nat n)"
    by (metis zdiv_int)
  then show ?thesis
    by simp
qed

lemma batch_list_eq:
  assumes "0 < n"
  shows "batch_list xs n = Inr (chunks_of (nat n) xs)"
proof -
  let ?n = "nat n"
  let ?m = "nat ((int (length xs) + n - 1) div n)"
  have n: "n = int ?n"
    using assms by simp
  have "range_up 0 (int (length xs)) n = map (\<lambda>k. int k * n) [0..<?m]"
    using range_up_eq [OF assms, of 0 "int (length xs)"] by simp
  then have "batch_list xs n =
      Inr (map (\<lambda>k. py_slice xs (int k * n) (int k * n + n)) [0..<?m])"
    using assms by (simp add: batch_list_def py_range_def comp_def)
  moreover have "py_slice xs (int k * n) (int k * n + n) = take ?n (drop (k * ?n) xs)" for k
  proof -
    have "py_slice xs (int k * n) (int k * n + n) = py_slice xs (int (k * ?n)) (int (k * ?n + ?n))"
      using n by (metis of_nat_add of_nat_mult)
    then show ?thesis
      by (simp only: py_slice_nat drop_take_chunk)
  qed
  ultimately show ?thesis
    using nat_round_up [OF assms, of "length xs"] by (simp add: chunks_of_def)
qed

lemma update_vesting_plans_batches_eq:
  assumes "0 < n"
  shows "update_vesting_plans_batches xs n = Inr (chunks_of (nat n) xs)"
proof -
  let ?n = "nat n"
  let ?t = "(int (length xs) + n - 1) div n"
  have n: "n = int ?n"
    using assms by simp
  have t: "total_batches xs n = Inr ?t"
    using assms by (simp add: total_batches_def py_floordiv_def)
  have "range_up 0 ?t 1 = map (\<lambda>k. int k) [0..<nat ?t]"
    using range_up_eq [of 1 0 ?t] by simp
  then have "update_vesting_plans_batches xs n =
      Inr (map (\<lambda>k. batch_data xs n (int k)) [0..<nat ?t])"
    by (simp add: update_vesting_plans_batches_def t comp_def)
  moreover have "batch_data xs n (int k) = take ?n (drop (k * ?n) xs)" for k
  proof -
    have lo: "int k * n = int (k * ?n)"
      using n by (metis of_nat_mult)
    have "(int k + 1) * n = int (k * ?n + ?n)"
      using lo n by (simp add: algebra_simps)
    then have hi: "min ((int k + 1) * n) (int (length xs)) = int (min (k * ?n + ?n) (length xs))"
      by (simp only: of_nat_min)
    have "batch_data xs n (int k) =
        py_slice xs (int (k * ?n)) (int (min (k * ?n + ?n) (length xs)))"
      unfolding batch_data_def Let_def by (simp only: lo hi)
    also have "\<dots> = drop (k * ?n) (take (min (k * ?n + ?n) (length xs)) xs)"
      by (rule py_slice_nat)
    also have "\<dots> = drop (k * ?n) (take (k * ?n + ?n) xs)"
      by (simp add: min_def)
    finally show ?thesis
      by (simp only: drop_take_chunk)
  qed
  ultimately show ?thesis
    using nat_round_up [OF assms, of "length xs"] by (simp add: chunks_of_def)
qed

lemma round_up_bounds_nat:
  fixes len n :: nat
  assumes "0 < n"
  shows "len \<le> ((len + n - 1) div n) * n" and "((len + n - 1) div n) * n < len + n"
proof -
  let ?m = "(len + n - 1) div n"
  have eq: "?m * n + (len + n - 1) mod n = len + n - 1"
    by (rule div_mult_mod_eq)
  have "(len + n - 1) mod n < n"
    using assms by simp
  with eq assms show "len \<le> ?m * n" and "?m * n < len + n"
    by linarith+
qed

lemma concat_chunks_upto:
  "concat (map (\<lambda>k. take n (drop (k * n) xs)) [0..<m]) = take (m * n) xs"
proof (induction m)
  case 0
  show ?case by simp
next
  case (Suc m)
  have "Suc m * n = m * n + n"
    by simp
  then have "take (Suc m * n) xs = take (m * n) xs @ take n (drop (m * n) xs)"
    by (simp only: take_add)
  with Suc show ?case
    by (simp del: mult_Suc)
qed

lemma concat_chunks_of:
  assumes "0 < n"
  shows "concat (chunks_of n xs) = xs"
  using round_up_bounds_nat(1) [OF assms, of "length xs"]
  by (simp add: chunks_of_def concat_chunks_upto)

lemma length_chunks_of: "length (chunks_of n xs) = (length xs + n - 1) div n"
  by (simp add: chunks_of_def)

lemma nth_chunks_of:
  assumes "k < length (chunks_of n xs)"
  shows "chunks_of n xs ! k = take n (drop (k * n) xs)"
  using assms by (simp add: chunks_of_def)

lemma chunk_start_in_list:
  assumes "0 < n" and "k < (length xs + n - 1) div n"
  shows "k * n < length xs"
proof -
  from assms(2) have "Suc k * n \<le> ((length xs + n - 1) div n) * n"
    by (simp only: Suc_le_eq [symmetric] mult_le_mono1)
  with round_up_bounds_nat(2) [OF assms(1), of "length xs"] show ?thesis
    by simp
qed

lemma chunks_of_nonempty:
  assumes "0 < n" and "b \<in> set (chunks_of n xs)"
  shows "b \<noteq> []"
proof -
  from assms(2) obtain k where k: "k < (length xs + n - 1) div n"
    and b: "b = take n (drop (k * n) xs)"
    by (auto simp add: chunks_of_def)
  from chunk_start_in_list [OF assms(1) k] assms(1) b show ?thesis
    by simp
qed

lemma chunks_of_full_length:
  assumes "0 < n" and "Suc k < length (chunks_of n xs)"
  shows "length (chunks_of n xs ! k) = n"
proof -
  from assms(2) have "Suc k < (length xs + n - 1) div n"
    by (simp add: length_chunks_of)
  from chunk_start_in_list [OF assms(1) this] have "k * n + n < length xs"
    by (simp add: add.commute)
  moreover from assms(2) have "chunks_of n xs ! k = take n (drop (k * n) xs)"
    by (simp add: nth_chunks_of)
  ultimately show ?thesis
    by simp
qed

lemma chunks_of_Nil:
  assumes "0 < n"
  shows "chunks_of n [] = []"
  using assms by (simp add: chunks_of_def)

lemma ceil_div:
  fixes a b :: int
  assumes "0 < b"
  shows "\<lceil>real_of_int a / real_of_int b\<rceil> = (a + b - 1) div b"
proof (rule ceiling_unique)
  let ?z = "(a + b - 1) div b"
  have "real_of_int (b * ?z) < real_of_int (a + b)"
    using div_round_up_bounds(2) [OF assms, of a] by (simp only: of_int_less_iff)
  then have "(real_of_int ?z - 1) * real_of_int b < real_of_int a"
    by (simp add: algebra_simps)
  then show "real_of_int ?z - 1 < real_of_int a / real_of_int b"
    using assms by (simp add: pos_less_divide_eq)
  have "real_of_int a \<le> real_of_int (b * ?z)"
    using div_round_up_bounds(1) [OF assms, of a] by (simp only: of_int_le_iff)
  then have "real_of_int a \<le> real_of_int ?z * real_of_int b"
    by (simp add: algebra_simps)
  then show "real_of_int a / real_of_int b \<le> real_of_int ?z"
    using assms by (simp add: pos_divide_le_eq)
qed

lemma length_chunks_of_ceiling:
  assumes "0 < n"
  shows "int (length (chunks_of (nat n) xs)) = \<lceil>real (length xs) / real_of_int n\<rceil>"
proof -
  have "int (length (chunks_of (nat n) xs)) = int (nat ((int (length xs) + n - 1) div n))"
    by (simp only: length_chunks_of nat_round_up [OF assms])
  also have "\<dots> = (int (length xs) + n - 1) div n"
    using assms by (simp add: pos_imp_zdiv_nonneg_iff)
  also have "\<dots> = \<lceil>real_of_int (int (length xs)) / real_of_int n\<rceil>"
    by (simp only: ceil_div [OF assms])
  finally show ?thesis
    by simp
qed

text \<open>
  Claim C2. For every list and every positive batch size \<open>n\<close>, iterating
  \<^verbatim>\<open>batch_list\<close> raises nothing, and the loop of \<^verbatim>\<open>update_vesting_plans\<close> takes the
  same batches. The batches are contiguous slices of the list in its order (the \<open>k\<close>-th
  batch is the \<open>n\<close> items from the index \<open>k * n\<close> on, or the rest of the list when fewer
  are left); their concatenation is the list; every batch but the last has exactly \<open>n\<close>
  items; no batch is empty; the empty list gives no batch; and the number of batches is
  the length of the list divided by \<open>n\<close>, rounded up.
\<close>

theorem batch_list_partition:
  assumes "0 < n"
  shows "\<exists>batches.
     batch_list items n = Inr batches
     \<and> update_vesting_plans_batches items n = Inr batches
     \<and> concat batches = items
     \<and> (\<forall>k < length batches. batches ! k = take (nat n) (drop (k * nat n) items))
     \<and> (\<forall>k. Suc k < length batches \<longrightarrow> length (batches ! k) = nat n)
     \<and> (\<forall>b \<in> set batches. b \<noteq> [])
     \<and> (items = [] \<longrightarrow> batches = [])
     \<and> int (length batches) = \<lceil>real (length items) / real_of_int n\<rceil>"
proof (intro exI conjI allI impI ballI)
  let ?bs = "chunks_of (nat n) items"
  from assms have n: "0 < nat n"
    by simp
  show "batch_list items n = Inr ?bs"
    by (rule batch_list_eq [OF assms])
  show "update_vesting_plans_batches items n = Inr ?bs"
    by (rule update_vesting_plans_batches_eq [OF assms])
  show "concat ?bs = items"
    by (rule concat_chunks_of [OF n])
  show "?bs ! k = take (nat n) (drop (k * nat n) items)" if "k < length ?bs" for k
    using that by (rule nth_chunks_of)
  show "length (?bs ! k) = nat n" if "Suc k < length ?bs" for k
    using n that by (rule chunks_of_full_length)
  show "b \<noteq> []" if "b \<in> set ?bs" for b
    using n that by (rule chunks_of_nonempty)
  show "?bs = []" if "items = []"
    using that n by (simp add: chunks_of_Nil)
  show "int (length ?bs) = \<lceil>real (length items) / real_of_int n\<rceil>"
    by (rule length_chunks_of_ceiling [OF assms])
qed

theorem batch_list_partition_witness:
  "batch_list [1, 2, 3, 4, 5, 6, 7 :: nat] 3 = Inr [[1, 2, 3], [4, 5, 6], [7]]
   \<and> update_vesting_plans_batches [1, 2, 3, 4, 5, 6, 7 :: nat] 3 = Inr [[1, 2, 3], [4, 5, 6], [7]]
   \<and> concat [[1, 2, 3], [4, 5, 6], [7 :: nat]] = [1, 2, 3, 4, 5, 6, 7]"
proof -
  have p: "(0 :: int) < 3"
    by simp
  have b: "batch_list [1, 2, 3, 4, 5, 6, 7 :: nat] 3 = Inr [[1, 2, 3], [4, 5, 6], [7]]"
    by (simp add: batch_list_def py_range_def range_up.simps py_slice_def slice_index_def)
  from batch_list_partition [OF p, of "[1, 2, 3, 4, 5, 6, 7 :: nat]"] b show ?thesis
    by auto
qed

text \<open>
  Claim C4, as amended. \<^verbatim>\<open>batch_list\<close> checks nothing about the batch size. Iterating it
  fails exactly when the batch size is 0, and the error is then the \<^verbatim>\<open>ValueError\<close> of
  \<^verbatim>\<open>range\<close>; a negative batch size raises nothing.
\<close>

theorem batch_list_fails_iff:
  "batch_list items batchSize = Inl e \<longleftrightarrow> batchSize = 0 \<and> e = ValueError"
  by (auto simp add: batch_list_def py_range_def)

theorem batch_list_negative_counterexample:
  "batch_list [1, 2, 3 :: nat] (- 1) = Inr []"
  by (simp add: batch_list_def py_range_def range_down.simps)

text \<open>
  Claim C10. For every non-empty list, iterating \<^verbatim>\<open>batch_list\<close> with the batch size 0
  raises \<^verbatim>\<open>ValueError\<close>; for every list and every negative batch size it raises
  nothing and yields no batch at all, so every item is dropped.
\<close>

theorem batch_list_zero_and_negative:
  "(items \<noteq> [] \<longrightarrow> batch_list items 0 = Inl ValueError)
   \<and> (batch_size < 0 \<longrightarrow> batch_list items batch_size = Inr [])"
proof (intro conjI impI)
  show "batch_list items 0 = Inl ValueError"
    by (simp add: batch_list_def py_range_def)
next
  assume neg: "batch_size < 0"
  have "range_down 0 (int (length items)) batch_size = []"
    by (subst range_down.simps) simp
  with neg show "batch_list items batch_size = Inr []"
    by (simp add: batch_list_def py_range_def)
qed

theorem batch_list_zero_and_negative_witness:
  "batch_list [1, 2, 3 :: nat] 0 = Inl ValueError \<and> batch_list [1, 2, 3 :: nat] (- 2) = Inr []"
  using batch_list_zero_and_negative [of "[1, 2, 3 :: nat]" "- 2"] by simp

end
